theory Spec2Isabelle
  imports Main "HOL-Library.AList" "HOL-Library.Sublist"
begin

section \<open>Values of the program\<close>

text \<open>
  The program is \<^verbatim>\<open>github_contributor_count.py\<close>. It reads commit records as parsed
  JSON, so the model keeps JSON values as they are: a dict is an association list in
  insertion order in which the first binding of a key is the one that counts. Numbers are
  integers (no field the program reads is a float).

  A \<open>char\<close> stands for the code point of the same number, so the strings of the model are
  the Python strings over code points 0 to 255.
\<close>

datatype json =
    JNull
  | JBool bool
  | JNum int
  | JStr string
  | JArr "json list"
  | JObj "(string \<times> json) list"

text \<open>
  Exceptions are values. \<open>Timeout\<close> and \<open>HTTPError\<close> are the two subclasses of
  \<^verbatim>\<open>requests.exceptions.RequestException\<close> the program meets by name; \<open>RequestException\<close>
  stands for every other member of that class. The other constructors are built-in
  exceptions outside that class.
\<close>

datatype exn =
    Timeout
  | HTTPError
  | RequestException
  | IndexError
  | ValueError
  | AttributeError
  | TypeError
  | OverflowError
  | OSError

definition is_RequestException :: "exn \<Rightarrow> bool" where
  "is_RequestException e = (e = Timeout \<or> e = HTTPError \<or> e = RequestException)"

text \<open>Python's truth value of a JSON value, as in \<^verbatim>\<open>if author:\<close>.\<close>

fun truthy :: "json \<Rightarrow> bool" where
  "truthy JNull = False"
| "truthy (JBool b) = b"
| "truthy (JNum n) = (n \<noteq> 0)"
| "truthy (JStr s) = (s \<noteq> [])"
| "truthy (JArr xs) = (xs \<noteq> [])"
| "truthy (JObj kvs) = (kvs \<noteq> [])"

text \<open>
  \<^verbatim>\<open>d.get(k, default)\<close>: only a dict has the method, every other value raises
  \<^verbatim>\<open>AttributeError\<close>.
\<close>

fun py_get :: "json \<Rightarrow> string \<Rightarrow> json \<Rightarrow> exn + json" where
  "py_get (JObj kvs) k d = Inr (case map_of kvs k of None \<Rightarrow> d | Some v \<Rightarrow> v)"
| "py_get _ k d = Inl AttributeError"

text \<open>
  \<^verbatim>\<open>str.lower\<close> on code points below 256: the ASCII capitals and the Latin-1 capitals
  (\<open>0xC0\<close> to \<open>0xDE\<close> without the multiplication sign \<open>0xD7\<close>) move up by 32.
\<close>

definition lower_char :: "char \<Rightarrow> char" where
  "lower_char c =
     (let n = (of_char c :: nat)
      in if (65 \<le> n \<and> n \<le> 90) \<or> (192 \<le> n \<and> n \<le> 222 \<and> n \<noteq> 215)
         then char_of (n + 32) else c)"

definition lower :: "string \<Rightarrow> string" where
  "lower s = map lower_char s"

text \<open>\<^verbatim>\<open>v.lower()\<close> on a JSON value: only a string has the method.\<close>

fun py_lower :: "json \<Rightarrow> exn + string" where
  "py_lower (JStr s) = Inr (lower s)"
| "py_lower _ = Inl AttributeError"

definition endswith :: "string \<Rightarrow> string \<Rightarrow> bool" where
  "endswith s suf = suffix suf s"

section \<open>Bot detection\<close>

text \<open>
  The expression \<^verbatim>\<open>commit.get("commit", {}).get("author", {})\<close>, which both \<^verbatim>\<open>is_bot\<close>
  and the extraction loop evaluate.
\<close>

definition inner_author :: "json \<Rightarrow> exn + json" where
  "inner_author commit =
     (case py_get commit ''commit'' (JObj []) of
        Inl e \<Rightarrow> Inl e
      | Inr c \<Rightarrow> py_get c ''author'' (JObj []))"

text \<open>
  \<^verbatim>\<open>is_bot\<close>: the outer author's type and login are looked at only when the outer author
  is truthy; then the inner author's email.
\<close>

definition is_bot :: "json \<Rightarrow> exn + bool" where
  "is_bot commit =
     (case py_get commit ''author'' JNull of
        Inl e \<Rightarrow> Inl e
      | Inr author \<Rightarrow>
         (case (if truthy author then
                  (case py_get author ''type'' (JStr '''') of
                     Inl e \<Rightarrow> Inl e
                   | Inr commit_author_type \<Rightarrow>
                       if commit_author_type = JStr ''Bot'' then Inr True
                       else (case py_get author ''login'' (JStr '''') of
                               Inl e \<Rightarrow> Inl e
                             | Inr login \<Rightarrow>
                                (case py_lower login of
                                   Inl e \<Rightarrow> Inl e
                                 | Inr username \<Rightarrow> Inr (endswith username ''[bot]''))))
                else Inr False) of
            Inl e \<Rightarrow> Inl e
          | Inr True \<Rightarrow> Inr True
          | Inr False \<Rightarrow>
             (case inner_author commit of
                Inl e \<Rightarrow> Inl e
              | Inr commit_author \<Rightarrow>
                 (case py_get commit_author ''email'' (JStr '''') of
                    Inl e \<Rightarrow> Inl e
                  | Inr em \<Rightarrow>
                     (case py_lower em of
                        Inl e \<Rightarrow> Inl e
                      | Inr email \<Rightarrow> Inr (endswith email ''[bot]''))))))"

section \<open>Contributor extraction\<close>

text \<open>
  One entry of the \<^verbatim>\<open>contributors\<close> dict. Name and date are stored as read, without a
  type check, so they are JSON values; the email has been through \<^verbatim>\<open>lower()\<close>.
\<close>

record contributor =
  c_name :: json
  c_email :: string
  c_last_commit :: json

text \<open>
  The expressions of lines 99, 100 and 113 on the inner author.
\<close>

definition email_of :: "json \<Rightarrow> exn + string" where
  "email_of author =
     (case py_get author ''email'' (JStr ''N/A'') of
        Inl e \<Rightarrow> Inl e
      | Inr em \<Rightarrow> py_lower em)"

definition name_of :: "json \<Rightarrow> exn + json" where
  "name_of author = py_get author ''name'' (JStr ''N/A'')"

definition date_of :: "json \<Rightarrow> exn + json" where
  "date_of author = py_get author ''date'' (JStr ''N/A'')"

text \<open>
  The state of the loop is the pair of dicts \<^verbatim>\<open>contributors\<close> and \<^verbatim>\<open>bots\<close>; the keys of
  \<^verbatim>\<open>bots\<close> are kept as a list. \<open>process_commit\<close> is the body of the loop for one commit.
  The calls of \<^verbatim>\<open>log\<close> write to the log only and are left out.
\<close>

type_synonym contributors = "(string \<times> contributor) list"

definition process_commit ::
  "json \<Rightarrow> contributors \<times> string list \<Rightarrow> exn + (contributors \<times> string list)" where
  "process_commit commit st =
     (case st of (contributors, bots) \<Rightarrow>
      (case inner_author commit of
         Inl e \<Rightarrow> Inl e
       | Inr author \<Rightarrow>
          if \<not> truthy author then Inr (contributors, bots)
          else
           (case email_of author of
              Inl e \<Rightarrow> Inl e
            | Inr email \<Rightarrow>
               (case name_of author of
                  Inl e \<Rightarrow> Inl e
                | Inr name \<Rightarrow>
                   (case is_bot commit of
                      Inl e \<Rightarrow> Inl e
                    | Inr True \<Rightarrow>
                        Inr (contributors, if email \<notin> set bots then bots @ [email] else bots)
                    | Inr False \<Rightarrow>
                        if map_of contributors email = None then
                          (case date_of author of
                             Inl e \<Rightarrow> Inl e
                           | Inr date \<Rightarrow>
                               Inr (AList.update email
                                      \<lparr>c_name = name, c_email = email, c_last_commit = date\<rparr>
                                      contributors,
                                    bots))
                        else Inr (contributors, bots))))))"

fun process_loop ::
  "json list \<Rightarrow> contributors \<times> string list \<Rightarrow> exn + (contributors \<times> string list)" where
  "process_loop [] st = Inr st"
| "process_loop (commit # commits) st =
     (case process_commit commit st of
        Inl e \<Rightarrow> Inl e
      | Inr st' \<Rightarrow> process_loop commits st')"

definition process_commits_and_contributors :: "json list \<Rightarrow> exn + contributors" where
  "process_commits_and_contributors commits =
     (case process_loop commits ([], []) of
        Inl e \<Rightarrow> Inl e
      | Inr (contributors, bots) \<Rightarrow> Inr contributors)"

text \<open>
  Two observers for stating properties of the loop. \<open>human_key\<close> is the key under which
  a commit enters \<^verbatim>\<open>contributors\<close>: its lower-cased email, when the commit has truthy
  author metadata, every read succeeds and \<^verbatim>\<open>is_bot\<close> returns \<^verbatim>\<open>False\<close>.
  \<open>lacks_author_metadata\<close> says that no author metadata is found in the record: the record
  is not an object, or its \<^verbatim>\<open>commit\<close> member is absent, or is not an object (\<^verbatim>\<open>null\<close>, say),
  or is an object whose \<^verbatim>\<open>author\<close> member is absent or falsy (\<^verbatim>\<open>null\<close>, \<^verbatim>\<open>{}\<close>, an empty
  string or list, \<^verbatim>\<open>0\<close>, \<^verbatim>\<open>false\<close>). \<open>commit_member_well_formed\<close> says that the record is an
  object whose \<^verbatim>\<open>commit\<close> member is absent or an object.
\<close>

definition human_key :: "json \<Rightarrow> string option" where
  "human_key commit =
     (case inner_author commit of
        Inl e \<Rightarrow> None
      | Inr author \<Rightarrow>
          if truthy author then
            (case email_of author of
               Inl e \<Rightarrow> None
             | Inr email \<Rightarrow>
                (case is_bot commit of Inr False \<Rightarrow> Some email | _ \<Rightarrow> None))
          else None)"

definition lacks_author_metadata :: "json \<Rightarrow> bool" where
  "lacks_author_metadata commit =
     (case commit of
        JObj kvs \<Rightarrow>
          (case map_of kvs ''commit'' of
             None \<Rightarrow> True
           | Some (JObj kvs') \<Rightarrow>
               (case map_of kvs' ''author'' of None \<Rightarrow> True | Some a \<Rightarrow> \<not> truthy a)
           | Some _ \<Rightarrow> True)
      | _ \<Rightarrow> True)"

definition commit_member_well_formed :: "json \<Rightarrow> bool" where
  "commit_member_well_formed commit =
     (case commit of
        JObj kvs \<Rightarrow>
          (case map_of kvs ''commit'' of
             None \<Rightarrow> True
           | Some (JObj kvs') \<Rightarrow> True
           | Some _ \<Rightarrow> False)
      | _ \<Rightarrow> False)"

section \<open>The Link header\<close>

text \<open>
  \<^verbatim>\<open>s.split(sep)\<close> for a separator of one character: the result is never empty, and
  \<^verbatim>\<open>"".split(",")\<close> is \<^verbatim>\<open>[""]\<close>.
\<close>

fun split_on :: "char \<Rightarrow> string \<Rightarrow> string list" where
  "split_on sep [] = [[]]"
| "split_on sep (x # xs) =
     (if x = sep then [] # split_on sep xs
      else (case split_on sep xs of
              [] \<Rightarrow> [[x]]
            | w # ws \<Rightarrow> (x # w) # ws))"

text \<open>
  \<^verbatim>\<open>str.isspace\<close> on code points below 256: tab to carriage return, the four separators
  \<open>0x1C\<close> to \<open>0x1F\<close>, the space, \<open>0x85\<close> and the no-break space.
\<close>

definition isspace :: "char \<Rightarrow> bool" where
  "isspace c =
     (let n = (of_char c :: nat)
      in (9 \<le> n \<and> n \<le> 13) \<or> (28 \<le> n \<and> n \<le> 32) \<or> n = 133 \<or> n = 160)"

definition strip_with :: "(char \<Rightarrow> bool) \<Rightarrow> string \<Rightarrow> string" where
  "strip_with P s = rev (dropWhile P (rev (dropWhile P s)))"

definition strip :: "string \<Rightarrow> string" where
  "strip s = strip_with isspace s"

text \<open>
  One turn of the loop of \<^verbatim>\<open>parse_link_header\<close>. \<^verbatim>\<open>section[0]\<close> always exists;
  \<^verbatim>\<open>section[1]\<close> and the second element of the split at \<^verbatim>\<open>=\<close> raise \<^verbatim>\<open>IndexError\<close> when
  they are missing. The slice \<^verbatim>\<open>[1:-1]\<close> drops the first and the last character and is
  empty on strings shorter than two. The result is the pair \<open>(rel, url)\<close>.
\<close>

definition parse_part :: "string \<Rightarrow> exn + (string \<times> string)" where
  "parse_part part =
     (case split_on CHR '';'' part of
        s0 # s1 # _ \<Rightarrow>
          (let url = butlast (tl (strip s0))
           in (case split_on CHR ''='' (strip s1) of
                 _ # r # _ \<Rightarrow> Inr (strip_with (\<lambda>c. c = CHR 0x22) r, url)
               | _ \<Rightarrow> Inl IndexError))
      | _ \<Rightarrow> Inl IndexError)"

fun parse_parts :: "string list \<Rightarrow> (string \<times> string) list \<Rightarrow> exn + (string \<times> string) list" where
  "parse_parts [] links = Inr links"
| "parse_parts (part # parts) links =
     (case parse_part part of
        Inl e \<Rightarrow> Inl e
      | Inr (rel, url) \<Rightarrow> parse_parts parts (AList.update rel url links))"

definition parse_link_header :: "string \<Rightarrow> exn + (string \<times> string) list" where
  "parse_link_header link_header = parse_parts (split_on CHR '','' link_header) []"

section \<open>The commit walker\<close>

text \<open>
  What one call of \<^verbatim>\<open>requests.get\<close> gives: it raises, or it returns a response. Of a
  response the walker reads the status code, the header \<^verbatim>\<open>X-RateLimit-Reset\<close>, the header
  \<^verbatim>\<open>Link\<close> and the decoded body. \<open>x_ratelimit_reset\<close> is \<open>None\<close> when the header is absent;
  \<open>Numeric n\<close> when \<^verbatim>\<open>int\<close> of it is \<open>n\<close>, \<open>NonNumeric\<close> when \<^verbatim>\<open>int\<close> of it raises
  \<^verbatim>\<open>ValueError\<close>. \<open>json_body\<close> is what \<^verbatim>\<open>response.json()\<close> does: it raises, or returns the
  decoded value, which is a list of commit records when the API keeps to its contract.

  What the surroundings do while a response with status 403 is handled comes with the
  response. \<open>time_default\<close> is \<^verbatim>\<open>int(time.time())\<close> of the reading passed as the default of
  the header, \<open>time_now\<close> is the \<^verbatim>\<open>int(time.time())\<close> that is subtracted. \<open>datetime_now\<close> is
  \<^verbatim>\<open>datetime.now()\<close> of line 146, in microseconds since \<^verbatim>\<open>datetime.min\<close>. \<open>sleep_error\<close> is
  what \<^verbatim>\<open>time.sleep\<close> of line 152 does with the wait it is given: \<open>None\<close> when it sleeps,
  \<open>Some e\<close> when it raises \<open>e\<close>; the largest wait that \<^verbatim>\<open>time.sleep\<close> accepts depends on the
  platform (about 9223372036 seconds; beyond it \<^verbatim>\<open>OverflowError\<close> or \<^verbatim>\<open>OSError\<close>).
\<close>

datatype reset_header = Numeric int | NonNumeric

record response =
  status_code :: int
  x_ratelimit_reset :: "reset_header option"
  link :: "string option"
  json_body :: "exn + json"
  time_default :: int
  time_now :: int
  datetime_now :: int
  sleep_error :: "exn option"

datatype event = GetRaises exn | Response response

text \<open>
  The variables of \<^verbatim>\<open>fetch_commits_for_repo\<close>, and two logs of its effects: the arguments
  of \<^verbatim>\<open>time.sleep\<close> and the URLs passed to \<^verbatim>\<open>requests.get\<close>, both in order. The texts
  written to the log and to the progress bar are not modelled; what can raise while they
  are built is.
\<close>

record walker =
  url :: "string option"
  all_commits :: "json list"
  retry_attempts :: nat
  slept :: "int list"
  requested :: "string list"

datatype control = Continue walker | Break walker | Raise exn walker

text \<open>
  The \<^verbatim>\<open>except\<close> clauses of the loop: \<^verbatim>\<open>Timeout\<close> first, then every other
  \<^verbatim>\<open>RequestException\<close>; any other exception leaves the function. The backoff is
  \<^verbatim>\<open>2 ** retry_attempts\<close> seconds; \<^verbatim>\<open>time.sleep\<close> accepts it for every count of timeouts
  below 34, and the program calls the walker with the default \<^verbatim>\<open>max_retries = 5\<close> only, so
  this sleep is taken to succeed.
\<close>

definition except_clauses :: "int \<Rightarrow> exn \<Rightarrow> walker \<Rightarrow> control" where
  "except_clauses max_retries e w =
     (if e = Timeout then
        (let w' = w\<lparr>retry_attempts := retry_attempts w + 1\<rparr>
         in if int (retry_attempts w') > max_retries then Break w'
            else Continue (w'\<lparr>slept := slept w' @ [2 ^ retry_attempts w']\<rparr>))
      else if is_RequestException e then Break w
      else Raise e w)"

definition reset_time :: "response \<Rightarrow> exn + int" where
  "reset_time r =
     (case x_ratelimit_reset r of
        None \<Rightarrow> Inr (time_default r)
      | Some (Numeric n) \<Rightarrow> Inr n
      | Some NonNumeric \<Rightarrow> Inl ValueError)"

text \<open>Lines 168 to 172: the new value of \<^verbatim>\<open>url\<close> after a page.\<close>

definition next_url :: "response \<Rightarrow> exn + string option" where
  "next_url r =
     (case link r of
        None \<Rightarrow> Inr None
      | Some h \<Rightarrow>
         (case parse_link_header h of
            Inl e \<Rightarrow> Inl e
          | Inr links \<Rightarrow> Inr (map_of links ''next'')))"

text \<open>
  Line 146, \<^verbatim>\<open>datetime.now() + timedelta(seconds=wait_time)\<close>, for a wait that is not
  negative. \<^verbatim>\<open>timedelta\<close> raises \<^verbatim>\<open>OverflowError\<close> for more than 999999999 days, and the sum
  raises it when it lies after \<^verbatim>\<open>datetime.max\<close>, the last microsecond of the year 9999,
  which is 315537897599999999 microseconds after \<^verbatim>\<open>datetime.min\<close>.
\<close>

definition completion_time :: "int \<Rightarrow> int \<Rightarrow> exn + int" where
  "completion_time now_us wait_time =
     (if 86399999999999 < wait_time then Inl OverflowError
      else if 315537897599999999 < now_us + wait_time * 1000000 then Inl OverflowError
      else Inr (now_us + wait_time * 1000000))"

text \<open>
  Line 160, \<^verbatim>\<open>all_commits.extend(commits)\<close>, iterates over the decoded body: over the
  elements of a list, the keys of a dict in insertion order, the characters of a string;
  \<^verbatim>\<open>null\<close>, a boolean and a number are not iterable and raise \<^verbatim>\<open>TypeError\<close>.
\<close>

fun py_iter :: "json \<Rightarrow> exn + json list" where
  "py_iter (JArr xs) = Inr xs"
| "py_iter (JObj kvs) = Inr (map JStr (rev (remdups (rev (map fst kvs)))))"
| "py_iter (JStr s) = Inr (map (\<lambda>c. JStr [c]) s)"
| "py_iter _ = Inl TypeError"

text \<open>
  The body of the \<^verbatim>\<open>while\<close> loop for the URL \<open>u\<close>. \<^verbatim>\<open>raise_for_status\<close> raises \<^verbatim>\<open>HTTPError\<close>
  for a status from 400 to 599. Everything from the request to the new value of \<^verbatim>\<open>url\<close>
  is inside the \<^verbatim>\<open>try\<close>, so every exception goes through the \<^verbatim>\<open>except\<close> clauses.
\<close>

definition loop_body :: "int \<Rightarrow> string \<Rightarrow> event \<Rightarrow> walker \<Rightarrow> control" where
  "loop_body max_retries u ev w0 =
     (let w = w0\<lparr>requested := requested w0 @ [u]\<rparr>
      in case ev of
           GetRaises e \<Rightarrow> except_clauses max_retries e w
         | Response r \<Rightarrow>
             if status_code r = 404 then Break w
             else if status_code r = 403 then
               (case reset_time r of
                  Inl e \<Rightarrow> except_clauses max_retries e w
                | Inr reset \<Rightarrow>
                    (let wait_time = max 0 (reset - time_now r)
                     in case completion_time (datetime_now r) wait_time of
                          Inl e \<Rightarrow> except_clauses max_retries e w
                        | Inr expected_completion_time \<Rightarrow>
                           (case sleep_error r of
                              Some e \<Rightarrow> except_clauses max_retries e w
                            | None \<Rightarrow> Continue (w\<lparr>slept := slept w @ [wait_time + 3]\<rparr>))))
             else if 400 \<le> status_code r \<and> status_code r < 600 then
               except_clauses max_retries HTTPError w
             else
               (case json_body r of
                  Inl e \<Rightarrow> except_clauses max_retries e w
                | Inr commits \<Rightarrow>
                   (case py_iter commits of
                      Inl e \<Rightarrow> except_clauses max_retries e w
                    | Inr items \<Rightarrow>
                       (let w1 = w\<lparr>all_commits := all_commits w @ items, retry_attempts := 0\<rparr>
                        in case next_url r of
                             Inl e \<Rightarrow> except_clauses max_retries e w1
                           | Inr nxt \<Rightarrow> Continue (w1\<lparr>url := nxt\<rparr>)))))"

text \<open>
  The loop, run against a finite script of what the successive calls of \<^verbatim>\<open>requests.get\<close>
  give. \<open>Returned\<close> is the \<^verbatim>\<open>return all_commits\<close> after the loop, \<open>Raised\<close> an exception
  that leaves the function, and \<open>Pending\<close> says that the script is used up while the loop
  is about to send another request.
\<close>

datatype outcome = Returned walker | Raised exn walker | Pending walker

fun walk :: "int \<Rightarrow> event list \<Rightarrow> walker \<Rightarrow> outcome" where
  "walk max_retries [] w =
     (case url w of
        None \<Rightarrow> Returned w
      | Some u \<Rightarrow> if u = [] then Returned w else Pending w)"
| "walk max_retries (ev # evs) w =
     (case url w of
        None \<Rightarrow> Returned w
      | Some u \<Rightarrow>
          if u = [] then Returned w
          else (case loop_body max_retries u ev w of
                  Continue w' \<Rightarrow> walk max_retries evs w'
                | Break w' \<Rightarrow> Returned w'
                | Raise e w' \<Rightarrow> Raised e w'))"

definition fetch_commits_for_repo ::
  "string \<Rightarrow> string \<Rightarrow> string \<Rightarrow> int \<Rightarrow> event list \<Rightarrow> outcome" where
  "fetch_commits_for_repo owner repo api_url max_retries evs =
     walk max_retries evs
       \<lparr>url = Some (api_url @ ''/repos/'' @ owner @ ''/'' @ repo @ ''/commits''),
        all_commits = [], retry_attempts = 0, slept = [], requested = []\<rparr>"

section \<open>One repository\<close>

text \<open>
  A row of the result of \<^verbatim>\<open>process_single_repository\<close>. The function splits the job at
  \<^verbatim>\<open>/\<close>, which raises \<^verbatim>\<open>ValueError\<close> unless there are exactly two parts, then fetches
  and extracts. \<open>fetched\<close> is what the call of \<^verbatim>\<open>fetch_commits_for_repo\<close> does when it is
  reached: it raises, or returns the commits. The rows follow the insertion order of the
  dict.
\<close>

record row =
  r_repo :: string
  r_email :: string
  r_name :: json
  r_last_commit :: json

definition process_single_repository :: "string \<Rightarrow> exn + json list \<Rightarrow> exn + row list" where
  "process_single_repository repo fetched =
     (case split_on CHR ''/'' repo of
        [owner, repo_name] \<Rightarrow>
          (case fetched of
             Inl e \<Rightarrow> Inl e
           | Inr commits \<Rightarrow>
              (case process_commits_and_contributors commits of
                 Inl e \<Rightarrow> Inl e
               | Inr contributors \<Rightarrow>
                   Inr (map (\<lambda>(email, details).
                               \<lparr>r_repo = owner @ ''/'' @ repo_name,
                                r_email = c_email details,
                                r_name = c_name details,
                                r_last_commit = c_last_commit details\<rparr>)
                            contributors)))
      | _ \<Rightarrow> Inl ValueError)"


section \<open>The orchestrator\<close>

text \<open>
  The variables that the collection loop of \<^verbatim>\<open>process_repositories\<close> updates, and the
  repositories for which it logs an error. \<open>collect_result\<close> is the body of the loop for
  one completed future: \<^verbatim>\<open>future.result()\<close> returns the rows of the job or raises what
  the job raised, and \<^verbatim>\<open>except Exception\<close> catches it.
\<close>

record aggregate =
  all_contributors :: "row list"
  repo_contributor_map :: "(string \<times> nat) list"
  error_log :: "(string \<times> exn) list"

definition collect_result :: "string \<Rightarrow> exn + row list \<Rightarrow> aggregate \<Rightarrow> aggregate" where
  "collect_result repo res a =
     (case res of
        Inr result \<Rightarrow>
          a\<lparr>all_contributors := all_contributors a @ result,
            repo_contributor_map :=
              AList.update repo (card (set (map r_email result))) (repo_contributor_map a)\<rparr>
      | Inl e \<Rightarrow> a\<lparr>error_log := error_log a @ [(repo, e)]\<rparr>)"

text \<open>
  The loop over \<^verbatim>\<open>as_completed\<close>. The jobs come in the order in which they complete, each
  with what its fetch does; the order is not fixed by the program, so properties hold for
  every order.
\<close>

fun collect :: "(string \<times> (exn + json list)) list \<Rightarrow> aggregate \<Rightarrow> aggregate" where
  "collect [] a = a"
| "collect ((repo, fetched) # jobs) a =
     collect jobs (collect_result repo (process_single_repository repo fetched) a)"

text \<open>
  The output of the run: the rows written to the CSV file, the table of counts, the total
  of line 290, and the errors logged.
\<close>

record report =
  csv_rows :: "row list"
  summary :: "(string \<times> nat) list"
  total_unique_contributors :: nat
  errors :: "(string \<times> exn) list"

definition process_repositories :: "(string \<times> (exn + json list)) list \<Rightarrow> report" where
  "process_repositories jobs =
     (let a = collect jobs \<lparr>all_contributors = [], repo_contributor_map = [], error_log = []\<rparr>
      in \<lparr>csv_rows = all_contributors a,
          summary = repo_contributor_map a,
          total_unique_contributors = card (set (map r_email (all_contributors a))),
          errors = error_log a\<rparr>)"

text \<open>The rows of a job that returns, for stating what the run collects.\<close>

definition rows_of :: "string \<times> (exn + json list) \<Rightarrow> row list" where
  "rows_of job =
     (case process_single_repository (fst job) (snd job) of
        Inl e \<Rightarrow> []
      | Inr result \<Rightarrow> result)"

section \<open>Notions for stating properties of the walker\<close>

text \<open>
  A response is \<open>successful\<close> when the loop gets past line 160 with it: the status is
  neither 404 nor 403 nor one that \<^verbatim>\<open>raise_for_status\<close> rejects, the body decodes, and what
  it decodes to can be iterated over. \<open>page\<close> is the list of records that line 160 appends
  for it: the commit records, when the body is a list. A successful response \<open>continues\<close> when its Link
  header gives a non-empty \<^verbatim>\<open>next\<close> URL, and it is a \<open>last_page\<close> when it has no Link
  header, or one without \<^verbatim>\<open>next\<close>, or one whose \<^verbatim>\<open>next\<close> URL is empty.
\<close>

definition successful :: "response \<Rightarrow> bool" where
  "successful r =
     (status_code r \<noteq> 404 \<and> status_code r \<noteq> 403 \<and>
      \<not> (400 \<le> status_code r \<and> status_code r < 600) \<and>
      (case json_body r of
         Inl e \<Rightarrow> False
       | Inr commits \<Rightarrow> (case py_iter commits of Inl e \<Rightarrow> False | Inr items \<Rightarrow> True)))"

definition page :: "response \<Rightarrow> json list" where
  "page r =
     (case json_body r of
        Inl e \<Rightarrow> []
      | Inr commits \<Rightarrow> (case py_iter commits of Inl e \<Rightarrow> [] | Inr items \<Rightarrow> items))"




text \<open>
  The wait of a response with status 403 is \<open>wait_accepted\<close> when neither the date
  arithmetic of line 146 nor \<^verbatim>\<open>time.sleep\<close> of line 152 raises for it.

  An event is \<open>caught\<close> when whatever it makes the body of the loop raise is a
  \<^verbatim>\<open>RequestException\<close>: the call itself raises one; or the response has status 403, its
  reset header, if present, is an integer, and its wait is accepted; or the body fails to
  decode with a \<^verbatim>\<open>RequestException\<close>; or the body decodes to a value that can be iterated
  over (a list, a dict, a string) and the Link header, if present, parses.
  It is \<open>terminal\<close> when the loop breaks on it in every state: a request exception other
  than a timeout, the status 404, or another status from 400 to 599 except 403.
\<close>

definition wait_accepted :: "response \<Rightarrow> int \<Rightarrow> bool" where
  "wait_accepted r wait_time =
     ((case completion_time (datetime_now r) wait_time of Inl e \<Rightarrow> False | Inr t \<Rightarrow> True) \<and>
      sleep_error r = None)"



section \<open>Sample inputs\<close>

text \<open>
  Commit records as the API returns them, cut down to the members the program reads. The
  first is by a bot account; the second and third carry the same email as the first
  without any bot marker; the fourth has no author metadata; the fifth has \<^verbatim>\<open>null\<close> for its
  \<^verbatim>\<open>commit\<close> member; the last two have author metadata without an email, one of them by a
  bot account.
\<close>

definition bot_commit :: json where
  "bot_commit =
     JObj [(''sha'', JStr ''a1''),
           (''author'', JObj [(''login'', JStr ''ci''), (''type'', JStr ''Bot'')]),
           (''commit'', JObj [(''author'',
              JObj [(''name'', JStr ''CI''), (''email'', JStr ''Ci@Example.com''),
                    (''date'', JStr ''2024-03-03T00:00:00Z'')])])]"

definition human_commit :: json where
  "human_commit =
     JObj [(''sha'', JStr ''b2''),
           (''author'', JObj [(''login'', JStr ''dev''), (''type'', JStr ''User'')]),
           (''commit'', JObj [(''author'',
              JObj [(''name'', JStr ''Dev''), (''email'', JStr ''ci@example.com''),
                    (''date'', JStr ''2024-02-02T00:00:00Z'')])])]"

definition older_commit :: json where
  "older_commit =
     JObj [(''sha'', JStr ''c3''),
           (''author'', JNull),
           (''commit'', JObj [(''author'',
              JObj [(''name'', JStr ''Developer''), (''email'', JStr ''CI@example.com''),
                    (''date'', JStr ''2024-01-01T00:00:00Z'')])])]"

definition anonymous_commit :: json where
  "anonymous_commit =
     JObj [(''sha'', JStr ''d4''), (''author'', JNull),
           (''commit'', JObj [(''author'', JNull), (''message'', JStr ''fix'')])]"

definition null_member_commit :: json where
  "null_member_commit = JObj [(''sha'', JStr ''d5''), (''author'', JNull), (''commit'', JNull)]"

definition no_email_bot_commit :: json where
  "no_email_bot_commit =
     JObj [(''sha'', JStr ''e5''),
           (''author'', JObj [(''login'', JStr ''ci''), (''type'', JStr ''Bot'')]),
           (''commit'', JObj [(''author'',
              JObj [(''name'', JStr ''A''), (''date'', JStr ''2024-05-05T00:00:00Z'')])])]"

definition no_email_commit :: json where
  "no_email_commit =
     JObj [(''sha'', JStr ''f6''),
           (''author'', JNull),
           (''commit'', JObj [(''author'',
              JObj [(''name'', JStr ''B''), (''date'', JStr ''2024-04-04T00:00:00Z'')])])]"

text \<open>
  Responses, all received 1000 seconds after the epoch, which is 62135597800000000
  microseconds after \<^verbatim>\<open>datetime.min\<close>: two pages of commits, the first with a \<^verbatim>\<open>next\<close> link
  and the second without; a rate-limit response whose reset time is five seconds ahead;
  one whose reset header is 1000000000000, an epoch in milliseconds; a page whose Link header
  has no \<^verbatim>\<open>;\<close>; and the state in which the walker starts for \<^verbatim>\<open>octocat/hello\<close>.
\<close>

definition first_page :: response where
  \<open>first_page =
     \<lparr>status_code = 200, x_ratelimit_reset = None,
      link = Some (''<https://api.github.com/repositories/1/commits?page=2>; rel="next", '' @
                   ''<https://api.github.com/repositories/1/commits?page=2>; rel="last"''),
      json_body = Inr (JArr [bot_commit, human_commit]),
      time_default = 1000, time_now = 1000,
      datetime_now = 62135597800000000, sleep_error = None\<rparr>\<close>

definition second_page :: response where
  \<open>second_page =
     \<lparr>status_code = 200, x_ratelimit_reset = None,
      link = Some (''<https://api.github.com/repositories/1/commits?page=1>; rel="first", '' @
                   ''<https://api.github.com/repositories/1/commits?page=1>; rel="prev"''),
      json_body = Inr (JArr [older_commit]),
      time_default = 1000, time_now = 1000,
      datetime_now = 62135597800000000, sleep_error = None\<rparr>\<close>

definition rate_limited :: response where
  "rate_limited =
     \<lparr>status_code = 403, x_ratelimit_reset = Some (Numeric 1005), link = None,
      json_body = Inr (JArr []), time_default = 1000, time_now = 1000,
      datetime_now = 62135597800000000, sleep_error = None\<rparr>"

definition far_reset :: response where
  "far_reset =
     \<lparr>status_code = 403, x_ratelimit_reset = Some (Numeric 1000000000000), link = None,
      json_body = Inr (JArr []), time_default = 1000, time_now = 1000,
      datetime_now = 62135597800000000, sleep_error = None\<rparr>"


definition start :: walker where
  "start =
     \<lparr>url = Some ''https://api.github.com/repos/octocat/hello/commits'',
      all_commits = [], retry_attempts = 0, slept = [], requested = []\<rparr>"

text \<open>
  Three jobs in the order in which they complete. The fetch of the second raises; the
  same email contributes to the first and to the third, whose rows follow.
\<close>

definition sample_jobs :: "(string \<times> (exn + json list)) list" where
  "sample_jobs =
     [(''octocat/hello'', Inr [bot_commit, human_commit]),
      (''octocat/broken'', Inl IndexError),
      (''octocat/world'', Inr [older_commit])]"

definition hello_row :: row where
  "hello_row =
     \<lparr>r_repo = ''octocat/hello'', r_email = ''ci@example.com'', r_name = JStr ''Dev'',
      r_last_commit = JStr ''2024-02-02T00:00:00Z''\<rparr>"

definition world_row :: row where
  "world_row =
     \<lparr>r_repo = ''octocat/world'', r_email = ''ci@example.com'', r_name = JStr ''Developer'',
      r_last_commit = JStr ''2024-01-01T00:00:00Z''\<rparr>"

section \<open>Properties of the extraction\<close>

subsection \<open>One turn of the loop\<close>

lemma process_commit_contributors:
  "process_commit c (m, b) = Inr (m', b') \<Longrightarrow>
   (case human_key c of
      None \<Rightarrow> m' = m
    | Some e \<Rightarrow>
       (case map_of m e of
          Some d \<Rightarrow> m' = m
        | None \<Rightarrow>
           (\<exists>a n d. inner_author c = Inr a \<and> name_of a = Inr n \<and> date_of a = Inr d \<and>
              m' = AList.update e \<lparr>c_name = n, c_email = e, c_last_commit = d\<rparr> m)))"
  by (auto simp: process_commit_def human_key_def
           split: sum.splits if_splits bool.splits option.splits)

lemma process_commit_keeps:
  assumes "process_commit c (m, b) = Inr (m', b')" and "map_of m e = Some d"
  shows "map_of m' e = Some d"
  using process_commit_contributors [OF assms(1)] assms(2)
  by (auto simp: update_conv' split: option.splits)

lemma process_commit_other:
  assumes "process_commit c (m, b) = Inr (m', b')" and "human_key c \<noteq> Some e"
  shows "map_of m' e = map_of m e"
  using process_commit_contributors [OF assms(1)] assms(2)
  by (auto simp: update_conv' split: option.splits)

lemma process_commit_first:
  assumes "process_commit c (m, b) = Inr (m', b')"
    and "human_key c = Some e" and "map_of m e = None"
  shows "\<exists>a n d. inner_author c = Inr a \<and> name_of a = Inr n \<and> date_of a = Inr d \<and>
           map_of m' e = Some \<lparr>c_name = n, c_email = e, c_last_commit = d\<rparr>"
  using process_commit_contributors [OF assms(1)] assms(2,3)
  by (auto simp: update_conv')

lemma process_commit_dom:
  assumes "process_commit c (m, b) = Inr (m', b')"
  shows "fst ` set m' = fst ` set m \<union> {e. human_key c = Some e}"
proof (cases "human_key c")
  case None
  with process_commit_contributors [OF assms] show ?thesis by simp
next
  case (Some e)
  show ?thesis
  proof (cases "map_of m e")
    case None
    with Some process_commit_contributors [OF assms] obtain v where "m' = AList.update e v m"
      by auto
    then have "fst ` set m' = {e} \<union> fst ` set m"
      by (simp only: dom_update)
    with Some show ?thesis by auto
  next
    case (Some d)
    then have "e \<in> fst ` set m"
      by (metis map_of_SomeD fst_conv image_eqI)
    with Some \<open>human_key c = Some e\<close> process_commit_contributors [OF assms] show ?thesis
      by auto
  qed
qed

lemma process_commit_distinct:
  assumes "process_commit c (m, b) = Inr (m', b')" and "distinct (map fst m)"
  shows "distinct (map fst m')"
  using process_commit_contributors [OF assms(1)] assms(2)
  by (auto simp: distinct_update split: option.splits)

lemma lacks_inner_author:
  assumes "lacks_author_metadata c" and "commit_member_well_formed c"
  shows "\<exists>a. inner_author c = Inr a \<and> \<not> truthy a"
proof (cases c)
  case (JObj kvs)
  show ?thesis
  proof (cases "map_of kvs ''commit''")
    case None
    with JObj show ?thesis by (simp add: inner_author_def)
  next
    case (Some cm)
    with JObj assms(2) obtain kvs' where cm: "cm = JObj kvs'"
      by (cases cm) (simp_all add: commit_member_well_formed_def)
    with JObj Some assms(1) show ?thesis
      by (cases "map_of kvs' ''author''")
         (simp_all add: lacks_author_metadata_def inner_author_def)
  qed
qed (use assms(2) in \<open>simp_all add: commit_member_well_formed_def\<close>)

lemma process_commit_skip:
  "lacks_author_metadata c \<Longrightarrow> commit_member_well_formed c \<Longrightarrow> process_commit c st = Inr st"
  by (cases st) (auto simp: process_commit_def dest: lacks_inner_author)

lemma process_commit_ill_formed:
  assumes "lacks_author_metadata c" and "\<not> commit_member_well_formed c"
  shows "process_commit c st = Inl AttributeError"
proof (cases c)
  case (JObj kvs)
  show ?thesis
  proof (cases "map_of kvs ''commit''")
    case None
    with JObj assms(2) show ?thesis by (simp add: commit_member_well_formed_def)
  next
    case (Some cm)
    with JObj assms(2) have "py_get cm ''author'' (JObj []) = Inl AttributeError"
      by (cases cm) (simp_all add: commit_member_well_formed_def)
    with JObj Some show ?thesis
      by (cases st) (simp add: process_commit_def inner_author_def)
  qed
qed (cases st, simp add: process_commit_def inner_author_def)+

subsection \<open>The whole loop\<close>

lemma process_loop_append:
  "process_loop (xs @ ys) st =
     (case process_loop xs st of Inl e \<Rightarrow> Inl e | Inr st' \<Rightarrow> process_loop ys st')"
  by (induction xs arbitrary: st) (auto split: sum.splits)

lemma process_loop_keeps:
  "process_loop cs (m, b) = Inr (m', b') \<Longrightarrow> map_of m e = Some d \<Longrightarrow> map_of m' e = Some d"
proof (induction cs arbitrary: m b)
  case Nil
  then show ?case by simp
next
  case (Cons c cs)
  from Cons.prems(1) obtain m1 b1 where
    s: "process_commit c (m, b) = Inr (m1, b1)" and
    r: "process_loop cs (m1, b1) = Inr (m', b')"
    by (auto split: sum.splits)
  from process_commit_keeps [OF s Cons.prems(2)] have "map_of m1 e = Some d" .
  with Cons.IH [OF r] show ?case .
qed

lemma process_loop_others:
  "process_loop cs (m, b) = Inr (m', b') \<Longrightarrow> \<forall>c \<in> set cs. human_key c \<noteq> Some e \<Longrightarrow>
   map_of m' e = map_of m e"
proof (induction cs arbitrary: m b)
  case Nil
  then show ?case by simp
next
  case (Cons c cs)
  from Cons.prems(1) obtain m1 b1 where
    s: "process_commit c (m, b) = Inr (m1, b1)" and
    r: "process_loop cs (m1, b1) = Inr (m', b')"
    by (auto split: sum.splits)
  from Cons.prems(2) have "human_key c \<noteq> Some e" by simp
  from process_commit_other [OF s this] have "map_of m1 e = map_of m e" .
  moreover from Cons.prems(2) have "\<forall>c \<in> set cs. human_key c \<noteq> Some e" by simp
  from Cons.IH [OF r this] have "map_of m' e = map_of m1 e" .
  ultimately show ?case by simp
qed

lemma process_loop_first:
  assumes run: "process_loop (earlier @ c # later) (m, b) = Inr (m', b')"
    and early: "\<forall>c' \<in> set earlier. human_key c' \<noteq> Some e"
    and fresh: "map_of m e = None"
    and key: "human_key c = Some e"
  shows "\<exists>a n d. inner_author c = Inr a \<and> name_of a = Inr n \<and> date_of a = Inr d \<and>
           map_of m' e = Some \<lparr>c_name = n, c_email = e, c_last_commit = d\<rparr>"
proof -
  from run obtain m1 b1 where
    r1: "process_loop earlier (m, b) = Inr (m1, b1)" and
    r2: "process_loop (c # later) (m1, b1) = Inr (m', b')"
    by (auto simp: process_loop_append split: sum.splits)
  from r2 obtain m2 b2 where
    s: "process_commit c (m1, b1) = Inr (m2, b2)" and
    r3: "process_loop later (m2, b2) = Inr (m', b')"
    by (auto split: sum.splits)
  from process_loop_others [OF r1 early] fresh have "map_of m1 e = None" by simp
  from process_commit_first [OF s key this] obtain a n d where
    a: "inner_author c = Inr a" "name_of a = Inr n" "date_of a = Inr d" and
    e: "map_of m2 e = Some \<lparr>c_name = n, c_email = e, c_last_commit = d\<rparr>"
    by blast
  from process_loop_keeps [OF r3 e] a show ?thesis by blast
qed

lemma process_loop_dom:
  "process_loop cs (m, b) = Inr (m', b') \<Longrightarrow>
   fst ` set m' = fst ` set m \<union> {e. \<exists>c \<in> set cs. human_key c = Some e}"
proof (induction cs arbitrary: m b)
  case Nil
  then show ?case by simp
next
  case (Cons c cs)
  from Cons.prems(1) obtain m1 b1 where
    s: "process_commit c (m, b) = Inr (m1, b1)" and
    r: "process_loop cs (m1, b1) = Inr (m', b')"
    by (auto split: sum.splits)
  from process_commit_dom [OF s] Cons.IH [OF r] show ?case by auto
qed

lemma process_loop_distinct:
  "process_loop cs (m, b) = Inr (m', b') \<Longrightarrow> distinct (map fst m) \<Longrightarrow> distinct (map fst m')"
proof (induction cs arbitrary: m b)
  case Nil
  then show ?case by simp
next
  case (Cons c cs)
  from Cons.prems(1) obtain m1 b1 where
    s: "process_commit c (m, b) = Inr (m1, b1)" and
    r: "process_loop cs (m1, b1) = Inr (m', b')"
    by (auto split: sum.splits)
  from process_commit_distinct [OF s Cons.prems(2)] Cons.IH [OF r] show ?case by simp
qed

lemma extraction_loop:
  assumes "process_commits_and_contributors commits = Inr m"
  shows "\<exists>b. process_loop commits ([], []) = Inr (m, b)"
  using assms by (auto simp: process_commits_and_contributors_def split: sum.splits)

subsection \<open>Claims about the extraction\<close>

text \<open>
  C1, as stated, fails. The sample bot commit puts \<^verbatim>\<open>ci@example.com\<close> into \<^verbatim>\<open>bots\<close>; the
  next commit carries the same email with a user account and no bot marker, \<^verbatim>\<open>is_bot\<close>
  returns \<^verbatim>\<open>False\<close> for it, and the email is a key of the mapping that extraction returns:
  the loop never looks a human commit's email up in \<^verbatim>\<open>bots\<close>.
\<close>

theorem bot_email_reappears_counterexample:
  "process_loop [bot_commit] ([], []) = Inr ([], [''ci@example.com'']) \<and>
   is_bot human_commit = Inr False \<and>
   process_commits_and_contributors [bot_commit, human_commit] =
     Inr [(''ci@example.com'',
           \<lparr>c_name = JStr ''Dev'', c_email = ''ci@example.com'',
            c_last_commit = JStr ''2024-02-02T00:00:00Z''\<rparr>)]"
  by code_simp

text \<open>
  C1, amended: bot exclusion is per commit. A commit classified as a bot never adds its
  email to the mapping: the keys of the mapping that extraction returns are exactly the
  lower-cased emails of the commits with author metadata for which \<^verbatim>\<open>is_bot\<close> returns
  \<^verbatim>\<open>False\<close>. So an email all of whose commits are bot commits is never a key, and an email
  seen on a bot commit is a key exactly when some other commit carries it without a bot
  marker.
\<close>

theorem keys_are_non_bot_emails:
  assumes "process_commits_and_contributors commits = Inr m"
  shows "fst ` set m = {e. \<exists>c \<in> set commits. human_key c = Some e}"
proof -
  from extraction_loop [OF assms] obtain b where
    "process_loop commits ([], []) = Inr (m, b)" ..
  from process_loop_dom [OF this] show ?thesis by simp
qed

theorem keys_are_non_bot_emails_witness:
  "process_commits_and_contributors [bot_commit, no_email_commit] =
     Inr [(''n/a'', \<lparr>c_name = JStr ''B'', c_email = ''n/a'',
                     c_last_commit = JStr ''2024-04-04T00:00:00Z''\<rparr>)] \<and>
   fst ` set [(''n/a'', \<lparr>c_name = JStr ''B'', c_email = ''n/a'',
                         c_last_commit = JStr ''2024-04-04T00:00:00Z''\<rparr>)] =
     {e. \<exists>c \<in> set [bot_commit, no_email_commit]. human_key c = Some e}"
proof -
  have h: "process_commits_and_contributors [bot_commit, no_email_commit] =
     Inr [(''n/a'', \<lparr>c_name = JStr ''B'', c_email = ''n/a'',
                     c_last_commit = JStr ''2024-04-04T00:00:00Z''\<rparr>)]"
    by code_simp
  show ?thesis by (rule conjI [OF h keys_are_non_bot_emails [OF h]])
qed

text \<open>
  C2: when extraction returns the mapping \<open>m\<close>, and \<open>c\<close> is the first commit of the
  sequence that is keyed under the lower-cased email \<open>e\<close> (it has author metadata and is
  not a bot commit), then the entry of \<open>m\<close> under \<open>e\<close> holds the name and the
  commit-author date of \<open>c\<close>, whatever the commits after \<open>c\<close> are: they never overwrite
  it.
\<close>

theorem first_seen_wins:
  assumes run: "process_commits_and_contributors commits = Inr m"
    and pos: "commits = earlier @ c # later"
    and early: "\<forall>c' \<in> set earlier. human_key c' \<noteq> Some e"
    and key: "human_key c = Some e"
  shows "\<exists>a n d. inner_author c = Inr a \<and> name_of a = Inr n \<and> date_of a = Inr d \<and>
           map_of m e = Some \<lparr>c_name = n, c_email = e, c_last_commit = d\<rparr>"
proof -
  from extraction_loop [OF run] pos obtain b where
    "process_loop (earlier @ c # later) ([], []) = Inr (m, b)" by auto
  from process_loop_first [OF this early _ key] show ?thesis by simp
qed

theorem first_seen_wins_witness:
  "process_commits_and_contributors [bot_commit, human_commit, older_commit] =
     Inr [(''ci@example.com'',
           \<lparr>c_name = JStr ''Dev'', c_email = ''ci@example.com'',
            c_last_commit = JStr ''2024-02-02T00:00:00Z''\<rparr>)] \<and>
   [bot_commit, human_commit, older_commit] = [bot_commit] @ human_commit # [older_commit] \<and>
   human_key bot_commit \<noteq> Some ''ci@example.com'' \<and>
   human_key human_commit = Some ''ci@example.com'' \<and>
   human_key older_commit = Some ''ci@example.com'' \<and>
   (\<exists>a n d. inner_author human_commit = Inr a \<and> name_of a = Inr n \<and> date_of a = Inr d \<and>
      map_of [(''ci@example.com'',
               \<lparr>c_name = JStr ''Dev'', c_email = ''ci@example.com'',
                c_last_commit = JStr ''2024-02-02T00:00:00Z''\<rparr>)] ''ci@example.com'' =
        Some \<lparr>c_name = n, c_email = ''ci@example.com'', c_last_commit = d\<rparr>)"
proof -
  have run: "process_commits_and_contributors [bot_commit, human_commit, older_commit] =
     Inr [(''ci@example.com'',
           \<lparr>c_name = JStr ''Dev'', c_email = ''ci@example.com'',
            c_last_commit = JStr ''2024-02-02T00:00:00Z''\<rparr>)]"
    by code_simp
  have pos: "[bot_commit, human_commit, older_commit] = [bot_commit] @ human_commit # [older_commit]"
    by simp
  have bot: "human_key bot_commit \<noteq> Some ''ci@example.com''" by code_simp
  then have early: "\<forall>c' \<in> set [bot_commit]. human_key c' \<noteq> Some ''ci@example.com''" by simp
  have key: "human_key human_commit = Some ''ci@example.com''" by code_simp
  have key': "human_key older_commit = Some ''ci@example.com''" by code_simp
  show ?thesis
    by (intro conjI run pos bot key key' first_seen_wins [OF run pos early key])
qed

text \<open>
  C9, as stated, fails. The sample record has \<^verbatim>\<open>null\<close> for its \<^verbatim>\<open>commit\<close> member, so it has
  no inner author metadata; line 94 calls \<^verbatim>\<open>get\<close> on that \<^verbatim>\<open>null\<close> and raises
  \<^verbatim>\<open>AttributeError\<close>: the record is not skipped, and the extraction of the whole sequence
  ends with the exception.
\<close>

theorem null_commit_member_counterexample:
  "lacks_author_metadata null_member_commit \<and>
   process_commit null_member_commit ([], []) = Inl AttributeError \<and>
   process_commits_and_contributors [null_member_commit, human_commit] = Inl AttributeError"
  by code_simp

text \<open>
  C9, amended: the defaults of line 94 cover absent members only. A commit record without
  author metadata that is an object whose \<^verbatim>\<open>commit\<close> member is absent or an object (with
  \<^verbatim>\<open>author\<close> absent or falsy) is skipped without raising: one turn of the loop returns the pair of
  \<^verbatim>\<open>contributors\<close> and \<^verbatim>\<open>bots\<close> unchanged, and the loop and the whole extraction give, on a
  sequence with the record in it, what they give on the sequence without it. A record
  that is not an object, or whose \<^verbatim>\<open>commit\<close> member is present and not an object, raises
  \<^verbatim>\<open>AttributeError\<close>.
\<close>

theorem missing_author_metadata_skipped:
  assumes "lacks_author_metadata c"
  shows "(commit_member_well_formed c \<longrightarrow>
            process_commit c st = Inr st \<and>
            process_loop (before @ c # after) st0 = process_loop (before @ after) st0 \<and>
            process_commits_and_contributors (before @ c # after) =
              process_commits_and_contributors (before @ after)) \<and>
         (\<not> commit_member_well_formed c \<longrightarrow> process_commit c st = Inl AttributeError)"
proof (intro conjI impI)
  assume wf: "commit_member_well_formed c"
  have skip: "\<And>s. process_commit c s = Inr s"
    using assms wf by (rule process_commit_skip)
  have loop: "\<And>s. process_loop (before @ c # after) s = process_loop (before @ after) s"
    by (simp add: process_loop_append skip split: sum.splits)
  show "process_commit c st = Inr st" by (rule skip)
  show "process_loop (before @ c # after) st0 = process_loop (before @ after) st0"
    by (rule loop)
  show "process_commits_and_contributors (before @ c # after) =
          process_commits_and_contributors (before @ after)"
    by (simp add: loop process_commits_and_contributors_def)
next
  assume "\<not> commit_member_well_formed c"
  with assms show "process_commit c st = Inl AttributeError"
    by (rule process_commit_ill_formed)
qed

theorem missing_author_metadata_skipped_witness:
  "lacks_author_metadata anonymous_commit \<and>
   commit_member_well_formed anonymous_commit \<and>
   process_commit anonymous_commit ([], [''ci@example.com'']) = Inr ([], [''ci@example.com'']) \<and>
   process_loop ([bot_commit] @ anonymous_commit # [human_commit]) ([], []) =
     process_loop ([bot_commit] @ [human_commit]) ([], []) \<and>
   process_commits_and_contributors ([bot_commit] @ anonymous_commit # [human_commit]) =
     process_commits_and_contributors ([bot_commit] @ [human_commit]) \<and>
   lacks_author_metadata null_member_commit \<and>
   \<not> commit_member_well_formed null_member_commit \<and>
   process_commit null_member_commit ([], [''ci@example.com'']) = Inl AttributeError"
proof -
  have h: "lacks_author_metadata anonymous_commit" by code_simp
  have wf: "commit_member_well_formed anonymous_commit" by code_simp
  have h': "lacks_author_metadata null_member_commit" by code_simp
  have nwf: "\<not> commit_member_well_formed null_member_commit" by code_simp
  note r = missing_author_metadata_skipped [OF h,
      where st = "([], [''ci@example.com''])" and before = "[bot_commit]"
        and after = "[human_commit]" and ?st0.0 = "([], [])", THEN conjunct1, THEN mp, OF wf]
  note r' = missing_author_metadata_skipped [OF h',
      where st = "([], [''ci@example.com''])", THEN conjunct2, THEN mp, OF nwf]
  show ?thesis
    by (intro conjI h wf h' nwf r [THEN conjunct1] r [THEN conjunct2, THEN conjunct1]
          r [THEN conjunct2, THEN conjunct2] r')
qed

text \<open>
  C10, as stated, fails. Both sample commits have author metadata and no email. The first
  is by a bot account, so it enters \<^verbatim>\<open>bots\<close>, not \<^verbatim>\<open>contributors\<close>; the entry under
  \<^verbatim>\<open>n/a\<close> has the name and the date of the second, not of the first such commit.
\<close>

theorem no_email_first_commit_counterexample:
  "inner_author no_email_bot_commit =
     Inr (JObj [(''name'', JStr ''A''), (''date'', JStr ''2024-05-05T00:00:00Z'')]) \<and>
   process_commits_and_contributors [no_email_bot_commit, no_email_commit] =
     Inr [(''n/a'', \<lparr>c_name = JStr ''B'', c_email = ''n/a'',
                     c_last_commit = JStr ''2024-04-04T00:00:00Z''\<rparr>)]"
  by code_simp

text \<open>
  C10, amended: a commit whose author metadata has no email is keyed under \<^verbatim>\<open>n/a\<close>. When
  it is not a bot commit and no earlier commit of the sequence is keyed under \<^verbatim>\<open>n/a\<close>
  (none without an email or with an email that lower-cases to \<^verbatim>\<open>n/a\<close>, bot commits
  apart), the mapping that extraction returns has under \<^verbatim>\<open>n/a\<close> the name and date of
  this commit (\<^verbatim>\<open>N/A\<close> where it has none), whatever follows; and the keys of the mapping are
  distinct, so this is the only entry for all commits keyed under \<^verbatim>\<open>n/a\<close>.
\<close>

theorem no_email_keyed_na:
  assumes run: "process_commits_and_contributors commits = Inr m"
    and pos: "commits = earlier @ c # later"
    and early: "\<forall>c' \<in> set earlier. human_key c' \<noteq> Some ''n/a''"
    and author: "inner_author c = Inr (JObj kvs)" "kvs \<noteq> []"
    and no_email: "map_of kvs ''email'' = None"
    and human: "is_bot c = Inr False"
  shows "email_of (JObj kvs) = Inr ''n/a'' \<and>
         map_of m ''n/a'' =
           Some \<lparr>c_name = (case map_of kvs ''name'' of None \<Rightarrow> JStr ''N/A'' | Some n \<Rightarrow> n),
                 c_email = ''n/a'',
                 c_last_commit = (case map_of kvs ''date'' of None \<Rightarrow> JStr ''N/A'' | Some d \<Rightarrow> d)\<rparr> \<and>
         distinct (map fst m)"
proof -
  have "lower ''N/A'' = ''n/a''" by code_simp
  with no_email have email: "email_of (JObj kvs) = Inr ''n/a''"
    by (simp add: email_of_def)
  with author human have key: "human_key c = Some ''n/a''"
    by (simp add: human_key_def)
  from extraction_loop [OF run] obtain b where
    loop: "process_loop commits ([], []) = Inr (m, b)" ..
  with pos have "process_loop (earlier @ c # later) ([], []) = Inr (m, b)" by simp
  from process_loop_first [OF this early _ key] author(1)
  have "map_of m ''n/a'' =
          Some \<lparr>c_name = (case map_of kvs ''name'' of None \<Rightarrow> JStr ''N/A'' | Some n \<Rightarrow> n),
                c_email = ''n/a'',
                c_last_commit = (case map_of kvs ''date'' of None \<Rightarrow> JStr ''N/A'' | Some d \<Rightarrow> d)\<rparr>"
    by (auto simp: name_of_def date_of_def)
  moreover from process_loop_distinct [OF loop] have "distinct (map fst m)" by simp
  ultimately show ?thesis using email by simp
qed

theorem no_email_keyed_na_witness:
  "process_commits_and_contributors [no_email_bot_commit, no_email_commit, no_email_commit] =
     Inr [(''n/a'', \<lparr>c_name = JStr ''B'', c_email = ''n/a'',
                     c_last_commit = JStr ''2024-04-04T00:00:00Z''\<rparr>)] \<and>
   [no_email_bot_commit, no_email_commit, no_email_commit] =
     [no_email_bot_commit] @ no_email_commit # [no_email_commit] \<and>
   human_key no_email_bot_commit \<noteq> Some ''n/a'' \<and>
   inner_author no_email_commit =
     Inr (JObj [(''name'', JStr ''B''), (''date'', JStr ''2024-04-04T00:00:00Z'')]) \<and>
   [(''name'', JStr ''B''), (''date'', JStr ''2024-04-04T00:00:00Z'')] \<noteq> [] \<and>
   map_of [(''name'', JStr ''B''), (''date'', JStr ''2024-04-04T00:00:00Z'')] ''email'' = None \<and>
   is_bot no_email_commit = Inr False \<and>
   (email_of (JObj [(''name'', JStr ''B''), (''date'', JStr ''2024-04-04T00:00:00Z'')]) =
      Inr ''n/a'' \<and>
    map_of [(''n/a'', \<lparr>c_name = JStr ''B'', c_email = ''n/a'',
                        c_last_commit = JStr ''2024-04-04T00:00:00Z''\<rparr>)] ''n/a'' =
      Some \<lparr>c_name =
              (case map_of [(''name'', JStr ''B''), (''date'', JStr ''2024-04-04T00:00:00Z'')]
                      ''name'' of None \<Rightarrow> JStr ''N/A'' | Some n \<Rightarrow> n),
            c_email = ''n/a'',
            c_last_commit =
              (case map_of [(''name'', JStr ''B''), (''date'', JStr ''2024-04-04T00:00:00Z'')]
                      ''date'' of None \<Rightarrow> JStr ''N/A'' | Some d \<Rightarrow> d)\<rparr> \<and>
    distinct (map fst [(''n/a'', \<lparr>c_name = JStr ''B'', c_email = ''n/a'',
                                  c_last_commit = JStr ''2024-04-04T00:00:00Z''\<rparr>)]))"
proof -
  have run: "process_commits_and_contributors
               [no_email_bot_commit, no_email_commit, no_email_commit] =
     Inr [(''n/a'', \<lparr>c_name = JStr ''B'', c_email = ''n/a'',
                     c_last_commit = JStr ''2024-04-04T00:00:00Z''\<rparr>)]"
    by code_simp
  have pos: "[no_email_bot_commit, no_email_commit, no_email_commit] =
     [no_email_bot_commit] @ no_email_commit # [no_email_commit]"
    by simp
  have bot: "human_key no_email_bot_commit \<noteq> Some ''n/a''" by code_simp
  then have early: "\<forall>c' \<in> set [no_email_bot_commit]. human_key c' \<noteq> Some ''n/a''" by simp
  have author: "inner_author no_email_commit =
     Inr (JObj [(''name'', JStr ''B''), (''date'', JStr ''2024-04-04T00:00:00Z'')])"
    by code_simp
  have ne: "[(''name'', JStr ''B''), (''date'', JStr ''2024-04-04T00:00:00Z'')] \<noteq> []"
    by simp
  have no_email:
    "map_of [(''name'', JStr ''B''), (''date'', JStr ''2024-04-04T00:00:00Z'')] ''email'' = None"
    by simp
  have human: "is_bot no_email_commit = Inr False" by code_simp
  show ?thesis
    by (intro conjI run pos bot author ne no_email human
          no_email_keyed_na [OF run pos early author ne no_email human])
qed

section \<open>Properties of the walker\<close>

subsection \<open>One request\<close>






lemma walk_rate_limited:
  assumes "url w = Some u" and "u \<noteq> []"
    and "status_code r = 403" and "x_ratelimit_reset r = Some (Numeric reset)"
    and "wait_accepted r (max 0 (reset - time_now r))"
  shows "walk mr (Response r # rest) w =
           walk mr rest (w\<lparr>requested := requested w @ [u],
                           slept := slept w @ [max 0 (reset - time_now r) + 3]\<rparr>)"
  using assms
  by (auto simp: loop_body_def reset_time_def wait_accepted_def Let_def split: sum.splits)

lemma walk_timeout:
  assumes "url w = Some u" and "u \<noteq> []"
  shows "walk mr (GetRaises Timeout # rest) w =
          (if int (retry_attempts w) < mr
           then walk mr rest (w\<lparr>requested := requested w @ [u],
                                 retry_attempts := retry_attempts w + 1,
                                 slept := slept w @ [2 ^ (retry_attempts w + 1)]\<rparr>)
           else Returned (w\<lparr>requested := requested w @ [u],
                            retry_attempts := retry_attempts w + 1\<rparr>))"
  using assms by (simp add: loop_body_def except_clauses_def Let_def)

lemma walk_success:
  assumes "url w = Some u" and "u \<noteq> []" and "successful r" and "next_url r = Inr nxt"
  shows "walk mr (Response r # rest) w =
           walk mr rest (w\<lparr>requested := requested w @ [u],
                           all_commits := all_commits w @ page r,
                           retry_attempts := 0,
                           url := nxt\<rparr>)"
  using assms
  by (auto simp: loop_body_def successful_def page_def Let_def split: sum.splits)

subsection \<open>Runs\<close>



lemma walk_rate_limited_many:
  assumes "url w = Some u" and "u \<noteq> []"
    and "status_code r = 403" and "x_ratelimit_reset r = Some (Numeric reset)"
    and "wait_accepted r (max 0 (reset - time_now r))"
  shows "walk mr (replicate n (Response r) @ rest) w =
           walk mr rest (w\<lparr>requested := requested w @ replicate n u,
                           slept := slept w @ replicate n (max 0 (reset - time_now r) + 3)\<rparr>)"
  using assms(1)
proof (induction n arbitrary: w)
  case 0
  then show ?case by simp
next
  case (Suc n)
  let ?w = "w\<lparr>requested := requested w @ [u],
               slept := slept w @ [max 0 (reset - time_now r) + 3]\<rparr>"
  have "walk mr (replicate (Suc n) (Response r) @ rest) w =
          walk mr (replicate n (Response r) @ rest) ?w"
    using walk_rate_limited [OF Suc.prems assms(2-5)] by simp
  also have "\<dots> = walk mr rest (?w\<lparr>requested := requested ?w @ replicate n u,
                           slept := slept ?w @ replicate n (max 0 (reset - time_now r) + 3)\<rparr>)"
    using Suc.prems by (intro Suc.IH) simp
  finally show ?case by (simp add: replicate_app_Cons_same)
qed

lemma walk_timeouts:
  assumes "url w = Some u" and "u \<noteq> []" and "int (retry_attempts w + k) \<le> mr"
  shows "walk mr (replicate k (GetRaises Timeout) @ rest) w =
           walk mr rest (w\<lparr>requested := requested w @ replicate k u,
                           retry_attempts := retry_attempts w + k,
                           slept := slept w @ map (\<lambda>i. 2 ^ (retry_attempts w + Suc i))
                                      [0 ..< k]\<rparr>)"
  using assms(1,3)
proof (induction k arbitrary: w)
  case 0
  then show ?case by simp
next
  case (Suc k)
  let ?w = "w\<lparr>requested := requested w @ [u],
               retry_attempts := retry_attempts w + 1,
               slept := slept w @ [2 ^ (retry_attempts w + 1)]\<rparr>"
  from Suc.prems have lt: "int (retry_attempts w) < mr" by simp
  have "walk mr (replicate (Suc k) (GetRaises Timeout) @ rest) w =
          walk mr (replicate k (GetRaises Timeout) @ rest) ?w"
    using walk_timeout [OF Suc.prems(1) assms(2), of mr] lt by simp
  also have "\<dots> = walk mr rest (?w\<lparr>requested := requested ?w @ replicate k u,
                           retry_attempts := retry_attempts ?w + k,
                           slept := slept ?w @ map (\<lambda>i. 2 ^ (retry_attempts ?w + Suc i))
                                      [0 ..< k]\<rparr>)"
    using Suc.prems by (intro Suc.IH) simp_all
  finally have e: "walk mr (replicate (Suc k) (GetRaises Timeout) @ rest) w =
      walk mr rest (?w\<lparr>requested := requested ?w @ replicate k u,
                           retry_attempts := retry_attempts ?w + k,
                           slept := slept ?w @ map (\<lambda>i. 2 ^ (retry_attempts ?w + Suc i))
                                      [0 ..< k]\<rparr>)" .
  show ?case
    by (subst e) (simp add: map_upt_Suc replicate_app_Cons_same del: upt_Suc)
qed


subsection \<open>Claims about the walker\<close>




text \<open>
  C4, as stated, fails. The sample response has status 403 and the reset header
  1000000000000, and \<^verbatim>\<open>time.sleep\<close> would accept its wait. The wait is 999999999000
  seconds; the expected completion time of line 146 lies after the year 9999, the sum
  raises \<^verbatim>\<open>OverflowError\<close>, no \<^verbatim>\<open>except\<close> clause of the walker catches it, and the walker
  neither sleeps nor retries.
\<close>

theorem far_reset_counterexample:
  "status_code far_reset = 403 \<and>
   x_ratelimit_reset far_reset = Some (Numeric 1000000000000) \<and>
   time_now far_reset = 1000 \<and>
   sleep_error far_reset = None \<and>
   completion_time (datetime_now far_reset) (max 0 (1000000000000 - 1000)) = Inl OverflowError \<and>
   fetch_commits_for_repo ''octocat'' ''hello'' ''https://api.github.com'' 5
     [Response far_reset] =
   Raised OverflowError
     \<lparr>url = Some ''https://api.github.com/repos/octocat/hello/commits'',
      all_commits = [], retry_attempts = 0, slept = [],
      requested = [''https://api.github.com/repos/octocat/hello/commits'']\<rparr>"
  by code_simp

text \<open>
  C4, amended: the wait has to be one that the date arithmetic of line 146 and
  \<^verbatim>\<open>time.sleep\<close> accept. On a response with status 403 and reset epoch \<open>reset\<close>, received at
  time \<open>t\<close>, whose wait \<open>max 0 (reset - t)\<close> is accepted, the walker sleeps
  \<open>max 0 (reset - t) + 3\<close> and goes on with the same URL, the same commits and the same
  count of timeouts: the next request is for the same page. This repeats without a bound:
  after \<open>n\<close> such responses the walker has requested the page \<open>n\<close> times, has slept \<open>n\<close>
  times, and is about to request the page again, for every \<open>n\<close>.
\<close>

theorem rate_limit_wait_and_retry:
  assumes "url w = Some u" and "u \<noteq> []"
    and "status_code r = 403" and "x_ratelimit_reset r = Some (Numeric reset)"
    and "time_now r = t"
    and "wait_accepted r (max 0 (reset - t))"
  shows "walk mr (Response r # rest) w =
           walk mr rest (w\<lparr>requested := requested w @ [u],
                           slept := slept w @ [max 0 (reset - t) + 3]\<rparr>) \<and>
         walk mr (replicate n (Response r)) w =
           Pending (w\<lparr>requested := requested w @ replicate n u,
                      slept := slept w @ replicate n (max 0 (reset - t) + 3)\<rparr>)"
proof -
  from assms(5,6) have acc: "wait_accepted r (max 0 (reset - time_now r))" by simp
  have "walk mr (replicate n (Response r) @ []) w =
           walk mr [] (w\<lparr>requested := requested w @ replicate n u,
                         slept := slept w @ replicate n (max 0 (reset - time_now r) + 3)\<rparr>)"
    using assms(1-4) acc by (rule walk_rate_limited_many)
  with assms walk_rate_limited [OF assms(1-4) acc] show ?thesis by simp
qed

theorem rate_limit_wait_and_retry_witness:
  "url start = Some ''https://api.github.com/repos/octocat/hello/commits'' \<and>
   ''https://api.github.com/repos/octocat/hello/commits'' \<noteq> [] \<and>
   status_code rate_limited = 403 \<and>
   x_ratelimit_reset rate_limited = Some (Numeric 1005) \<and>
   time_now rate_limited = 1000 \<and>
   wait_accepted rate_limited (max 0 (1005 - 1000)) \<and>
   walk 5 (Response rate_limited # [Response second_page]) start =
     walk 5 [Response second_page]
       (start\<lparr>requested := requested start @
                  [''https://api.github.com/repos/octocat/hello/commits''],
              slept := slept start @ [max 0 (1005 - 1000) + 3]\<rparr>) \<and>
   walk 5 (replicate 3 (Response rate_limited)) start =
     Pending (start\<lparr>requested := requested start @
                       replicate 3 ''https://api.github.com/repos/octocat/hello/commits'',
                     slept := slept start @ replicate 3 (max 0 (1005 - 1000) + 3)\<rparr>)"
proof -
  have u: "url start = Some ''https://api.github.com/repos/octocat/hello/commits''"
    by (simp add: start_def)
  have ne: "''https://api.github.com/repos/octocat/hello/commits'' \<noteq> []" by simp
  have s: "status_code rate_limited = 403" by (simp add: rate_limited_def)
  have x: "x_ratelimit_reset rate_limited = Some (Numeric 1005)" by (simp add: rate_limited_def)
  have t: "time_now rate_limited = 1000" by (simp add: rate_limited_def)
  have a: "wait_accepted rate_limited (max 0 (1005 - 1000))" by code_simp
  note r = rate_limit_wait_and_retry [OF u ne s x t a,
      where mr = 5 and rest = "[Response second_page]" and n = 3]
  show ?thesis
    by (intro conjI u ne s x t a r [THEN conjunct1] r [THEN conjunct2])
qed

text \<open>
  C5: with \<open>j\<close> timeouts counted so far, \<open>k\<close> further timeouts in a row that stay within
  \<open>max_retries\<close> make the walker sleep \<open>2 ^ (j + 1)\<close>, ..., \<open>2 ^ (j + k)\<close> and retry the same
  URL each time. A timeout that takes the count beyond \<open>max_retries\<close> makes the walker
  return, without a sleep and with the commits it holds; so from a count of zero the
  walker returns on timeout \<open>max_retries + 1\<close>, after sleeps of 2, 4, ...,
  \<open>2 ^ max_retries\<close>. A successful page sets the count to zero whatever it was: a timeout
  on the next page is the first again, with a sleep of 2.
\<close>

theorem timeout_backoff:
  assumes "url w = Some u" and "u \<noteq> []"
  shows "(int (retry_attempts w + k) \<le> mr \<longrightarrow>
            walk mr (replicate k (GetRaises Timeout) @ rest) w =
              walk mr rest (w\<lparr>requested := requested w @ replicate k u,
                              retry_attempts := retry_attempts w + k,
                              slept := slept w @ map (\<lambda>i. 2 ^ (retry_attempts w + Suc i))
                                         [0 ..< k]\<rparr>)) \<and>
         (mr \<le> int (retry_attempts w) \<longrightarrow>
            walk mr (GetRaises Timeout # rest) w =
              Returned (w\<lparr>requested := requested w @ [u],
                          retry_attempts := retry_attempts w + 1\<rparr>)) \<and>
         (retry_attempts w = 0 \<and> 0 \<le> mr \<longrightarrow>
            walk mr (replicate (nat mr + 1) (GetRaises Timeout) @ rest) w =
              Returned (w\<lparr>requested := requested w @ replicate (nat mr + 1) u,
                          retry_attempts := nat mr + 1,
                          slept := slept w @ map (\<lambda>i. 2 ^ Suc i) [0 ..< nat mr]\<rparr>)) \<and>
         (successful r \<and> next_url r = Inr (Some u') \<and> u' \<noteq> [] \<and> 1 \<le> mr \<longrightarrow>
            walk mr (Response r # GetRaises Timeout # rest) w =
              walk mr rest (w\<lparr>requested := requested w @ [u, u'],
                              all_commits := all_commits w @ page r,
                              url := Some u',
                              retry_attempts := 1,
                              slept := slept w @ [2]\<rparr>))"
proof (intro conjI impI)
  assume "int (retry_attempts w + k) \<le> mr"
  with assms show "walk mr (replicate k (GetRaises Timeout) @ rest) w =
              walk mr rest (w\<lparr>requested := requested w @ replicate k u,
                              retry_attempts := retry_attempts w + k,
                              slept := slept w @ map (\<lambda>i. 2 ^ (retry_attempts w + Suc i))
                                         [0 ..< k]\<rparr>)"
    by (rule walk_timeouts)
next
  assume "mr \<le> int (retry_attempts w)"
  with walk_timeout [OF assms, of mr rest]
  show "walk mr (GetRaises Timeout # rest) w =
              Returned (w\<lparr>requested := requested w @ [u],
                          retry_attempts := retry_attempts w + 1\<rparr>)"
    by simp
next
  assume a: "retry_attempts w = 0 \<and> 0 \<le> mr"
  let ?w = "w\<lparr>requested := requested w @ replicate (nat mr) u,
               retry_attempts := retry_attempts w + nat mr,
               slept := slept w @ map (\<lambda>i. 2 ^ (retry_attempts w + Suc i)) [0 ..< nat mr]\<rparr>"
  from a have le: "int (retry_attempts w + nat mr) \<le> mr" by simp
  have "replicate (nat mr + 1) (GetRaises Timeout) @ rest =
          replicate (nat mr) (GetRaises Timeout) @ GetRaises Timeout # rest"
    by (simp add: replicate_app_Cons_same)
  then have "walk mr (replicate (nat mr + 1) (GetRaises Timeout) @ rest) w =
          walk mr (GetRaises Timeout # rest) ?w"
    using walk_timeouts [OF assms le, of "GetRaises Timeout # rest"] by simp
  also have "\<dots> = Returned (?w\<lparr>requested := requested ?w @ [u],
                                retry_attempts := retry_attempts ?w + 1\<rparr>)"
    using walk_timeout [of ?w u mr rest] assms a by simp
  finally show "walk mr (replicate (nat mr + 1) (GetRaises Timeout) @ rest) w =
              Returned (w\<lparr>requested := requested w @ replicate (nat mr + 1) u,
                          retry_attempts := nat mr + 1,
                          slept := slept w @ map (\<lambda>i. 2 ^ Suc i) [0 ..< nat mr]\<rparr>)"
    using a by (simp add: replicate_append_same)
next
  assume a: "successful r \<and> next_url r = Inr (Some u') \<and> u' \<noteq> [] \<and> 1 \<le> mr"
  let ?w = "w\<lparr>requested := requested w @ [u], all_commits := all_commits w @ page r,
               retry_attempts := 0, url := Some u'\<rparr>"
  from a have "walk mr (Response r # GetRaises Timeout # rest) w =
                 walk mr (GetRaises Timeout # rest) ?w"
    using walk_success [OF assms, of r "Some u'"] by simp
  also have "\<dots> = walk mr rest (?w\<lparr>requested := requested ?w @ [u'],
                                 retry_attempts := retry_attempts ?w + 1,
                                 slept := slept ?w @ [2 ^ (retry_attempts ?w + 1)]\<rparr>)"
    using walk_timeout [of ?w u' mr rest] a by simp
  also have "\<dots> = walk mr rest (w\<lparr>requested := requested w @ [u, u'],
                              all_commits := all_commits w @ page r,
                              url := Some u',
                              retry_attempts := 1,
                              slept := slept w @ [2]\<rparr>)"
    by (rule arg_cong [of _ _ "walk mr rest"]) (cases w, simp)
  finally show "walk mr (Response r # GetRaises Timeout # rest) w =
              walk mr rest (w\<lparr>requested := requested w @ [u, u'],
                              all_commits := all_commits w @ page r,
                              url := Some u',
                              retry_attempts := 1,
                              slept := slept w @ [2]\<rparr>)" .
qed

theorem timeout_backoff_witness:
  "url start = Some ''https://api.github.com/repos/octocat/hello/commits'' \<and>
   ''https://api.github.com/repos/octocat/hello/commits'' \<noteq> [] \<and>
   int (retry_attempts start + 3) \<le> 5 \<and>
   walk 5 (replicate 3 (GetRaises Timeout) @ [Response second_page]) start =
     walk 5 [Response second_page]
       (start\<lparr>requested := requested start @
                  replicate 3 ''https://api.github.com/repos/octocat/hello/commits'',
              retry_attempts := retry_attempts start + 3,
              slept := slept start @ map (\<lambda>i. 2 ^ (retry_attempts start + Suc i)) [0 ..< 3]\<rparr>) \<and>
   retry_attempts start = 0 \<and> (0::int) \<le> 5 \<and>
   walk 5 (replicate (nat 5 + 1) (GetRaises Timeout) @ [Response second_page]) start =
     Returned (start\<lparr>requested := requested start @
                        replicate (nat 5 + 1) ''https://api.github.com/repos/octocat/hello/commits'',
                      retry_attempts := nat 5 + 1,
                      slept := slept start @ map (\<lambda>i. 2 ^ Suc i) [0 ..< nat 5]\<rparr>) \<and>
   successful first_page \<and>
   next_url first_page = Inr (Some ''https://api.github.com/repositories/1/commits?page=2'') \<and>
   ''https://api.github.com/repositories/1/commits?page=2'' \<noteq> [] \<and> (1::int) \<le> 5 \<and>
   walk 5 (Response first_page # GetRaises Timeout # [Response second_page]) start =
     walk 5 [Response second_page]
       (start\<lparr>requested := requested start @
                  [''https://api.github.com/repos/octocat/hello/commits'',
                   ''https://api.github.com/repositories/1/commits?page=2''],
              all_commits := all_commits start @ page first_page,
              url := Some ''https://api.github.com/repositories/1/commits?page=2'',
              retry_attempts := 1,
              slept := slept start @ [2]\<rparr>)"
proof -
  have u: "url start = Some ''https://api.github.com/repos/octocat/hello/commits''"
    by (simp add: start_def)
  have ne: "''https://api.github.com/repos/octocat/hello/commits'' \<noteq> []" by simp
  have k: "int (retry_attempts start + 3) \<le> 5" by (simp add: start_def)
  have z: "retry_attempts start = 0" by (simp add: start_def)
  have m: "(0::int) \<le> 5" by simp
  have s: "successful first_page" by code_simp
  have n: "next_url first_page =
             Inr (Some ''https://api.github.com/repositories/1/commits?page=2'')"
    by code_simp
  have ne': "''https://api.github.com/repositories/1/commits?page=2'' \<noteq> []" by simp
  have m1: "(1::int) \<le> 5" by simp
  note r = timeout_backoff [OF u ne, where mr = 5 and k = 3 and rest = "[Response second_page]"
      and r = first_page and u' = "''https://api.github.com/repositories/1/commits?page=2''"]
  show ?thesis
    by (intro conjI u ne k z m s n ne' m1
          r [THEN conjunct1, THEN mp, OF k]
          r [THEN conjunct2, THEN conjunct2, THEN conjunct1, THEN mp, OF conjI [OF z m]]
          r [THEN conjunct2, THEN conjunct2, THEN conjunct2, THEN mp,
             OF conjI [OF s conjI [OF n conjI [OF ne' m1]]]])
qed



section \<open>Properties of the orchestrator\<close>

lemma split_on_nonempty: "split_on c xs \<noteq> []"
  by (induction xs) (auto split: list.splits)

lemma split_on_single: "split_on c xs = [b] \<Longrightarrow> xs = b"
  by (induction xs arbitrary: b) (auto simp: split_on_nonempty split: if_splits list.splits)

lemma split_on_two: "split_on c xs = [a, b] \<Longrightarrow> xs = a @ c # b"
  by (induction xs arbitrary: a) (auto dest: split_on_single split: if_splits list.splits)

lemma process_single_repository_repo:
  assumes "process_single_repository repo fetched = Inr rows" and "x \<in> set rows"
  shows "r_repo x = repo"
proof -
  from assms(1) obtain owner repo_name where
    sp: "split_on CHR ''/'' repo = [owner, repo_name]"
    by (auto simp: process_single_repository_def split: list.splits)
  from split_on_two [OF sp] have "repo = owner @ ''/'' @ repo_name" by simp
  with assms sp show ?thesis
    by (auto simp: process_single_repository_def split: sum.splits)
qed

lemma rows_of_repo:
  assumes "x \<in> set (rows_of job)"
  shows "r_repo x = fst job \<and>
         (\<exists>rows. process_single_repository (fst job) (snd job) = Inr rows \<and> x \<in> set rows)"
proof (cases "process_single_repository (fst job) (snd job)")
  case (Inl e)
  with assms show ?thesis by (simp add: rows_of_def)
next
  case (Inr rows)
  with assms have "x \<in> set rows" by (simp add: rows_of_def)
  with Inr process_single_repository_repo [OF Inr this] show ?thesis by simp
qed

lemma collect_rows:
  "all_contributors (collect jobs a) = all_contributors a @ concat (map rows_of jobs)"
  by (induction jobs arbitrary: a)
     (auto simp: collect_result_def rows_of_def split: sum.splits)

lemma collect_errors:
  "(repo, fetched) \<in> set jobs \<Longrightarrow> process_single_repository repo fetched = Inl e \<Longrightarrow>
   (repo, e) \<in> set (error_log (collect jobs a))"
proof (induction jobs arbitrary: a)
  case Nil
  then show ?case by simp
next
  case (Cons job jobs)
  have keep: "\<And>x js b. x \<in> set (error_log b) \<Longrightarrow> x \<in> set (error_log (collect js b))"
  proof -
    fix x :: "string \<times> exn" and js b
    show "x \<in> set (error_log b) \<Longrightarrow> x \<in> set (error_log (collect js b))"
      by (induction js arbitrary: b) (auto simp: collect_result_def split: sum.splits)
  qed
  show ?case
  proof (cases "job = (repo, fetched)")
    case True
    with Cons.prems(2) have
      "(repo, e) \<in> set (error_log (collect_result repo (process_single_repository repo fetched) a))"
      by (simp add: collect_result_def)
    from keep [OF this] True show ?thesis by simp
  next
    case False
    with Cons.prems(1) have "(repo, fetched) \<in> set jobs" by auto
    from Cons.IH [OF this Cons.prems(2)] show ?thesis by (cases job) simp
  qed
qed

lemma collect_map_dom:
  "fst ` set (repo_contributor_map (collect jobs a)) =
     fst ` set (repo_contributor_map a) \<union>
     {r. \<exists>f rows. (r, f) \<in> set jobs \<and> process_single_repository r f = Inr rows}"
proof (induction jobs arbitrary: a)
  case Nil
  then show ?case by simp
next
  case (Cons job jobs)
  obtain r f where job: "job = (r, f)" by (cases job)
  show ?case
  proof (cases "process_single_repository r f")
    case (Inl e)
    with job Cons.IH [of "collect_result r (Inl e) a"] show ?thesis
      by (auto simp: collect_result_def)
  next
    case (Inr rows)
    with job Cons.IH [of "collect_result r (Inr rows) a"] show ?thesis
      by (auto simp: collect_result_def dom_update)
  qed
qed

lemma collect_map_other:
  "r \<notin> fst ` set jobs \<Longrightarrow>
   map_of (repo_contributor_map (collect jobs a)) r = map_of (repo_contributor_map a) r"
proof (induction jobs arbitrary: a)
  case Nil
  then show ?case by simp
next
  case (Cons job jobs)
  obtain r' f where job: "job = (r', f)" by (cases job)
  with Cons.prems have ne: "r' \<noteq> r" and rest: "r \<notin> fst ` set jobs" by auto
  have "map_of (repo_contributor_map (collect_result r' (process_single_repository r' f) a)) r
          = map_of (repo_contributor_map a) r"
    using ne by (auto simp: collect_result_def update_conv' split: sum.splits)
  with Cons.IH [OF rest] job show ?case by simp
qed

lemma collect_map_count:
  "distinct (map fst jobs) \<Longrightarrow> (r, f) \<in> set jobs \<Longrightarrow>
   process_single_repository r f = Inr rows \<Longrightarrow>
   map_of (repo_contributor_map (collect jobs a)) r = Some (card (set (map r_email rows)))"
proof (induction jobs arbitrary: a)
  case Nil
  then show ?case by simp
next
  case (Cons job jobs)
  obtain r' f' where job: "job = (r', f')" by (cases job)
  show ?case
  proof (cases "(r, f) = job")
    case True
    with job Cons.prems(1) have "r \<notin> fst ` set jobs" by auto
    from collect_map_other [OF this] True job Cons.prems(3) show ?thesis
      by (simp add: collect_result_def update_conv')
  next
    case False
    with Cons.prems(2) have "(r, f) \<in> set jobs" by simp
    moreover from Cons.prems(1) have "distinct (map fst jobs)" by simp
    ultimately show ?thesis using Cons.IH Cons.prems(3) job by simp
  qed
qed

lemma failed_job_no_rows:
  assumes d: "distinct (map fst jobs)" and j: "(repo, fetched) \<in> set jobs"
    and f: "process_single_repository repo fetched = Inl e"
  shows "repo \<notin> r_repo ` set (concat (map rows_of jobs))"
proof
  assume "repo \<in> r_repo ` set (concat (map rows_of jobs))"
  then obtain x job where job: "job \<in> set jobs" and x: "x \<in> set (rows_of job)"
    and r: "r_repo x = repo" by auto
  from rows_of_repo [OF x] r obtain rows where
    "fst job = repo" and ok: "process_single_repository (fst job) (snd job) = Inr rows"
    by auto
  with job have "(repo, snd job) \<in> set jobs" by (cases job) auto
  from eq_key_imp_eq_value [OF d this j] ok \<open>fst job = repo\<close> f show False by simp
qed

lemma failed_job_no_count:
  assumes d: "distinct (map fst jobs)" and j: "(repo, fetched) \<in> set jobs"
    and f: "process_single_repository repo fetched = Inl e"
  shows "repo \<notin> fst ` set (repo_contributor_map (collect jobs
            \<lparr>all_contributors = [], repo_contributor_map = [], error_log = []\<rparr>))"
proof
  assume "repo \<in> fst ` set (repo_contributor_map (collect jobs
            \<lparr>all_contributors = [], repo_contributor_map = [], error_log = []\<rparr>))"
  then obtain f' rows where "(repo, f') \<in> set jobs"
    and ok: "process_single_repository repo f' = Inr rows"
    by (auto simp: collect_map_dom)
  from eq_key_imp_eq_value [OF d this(1) j] ok f show False by simp
qed

lemma repeated_email_counted_once:
  assumes "x1 \<in> set xs" and "x2 \<in> set xs" and "x1 \<noteq> x2" and "f x1 = f x2"
  shows "card (set (map f xs)) < length xs"
proof -
  have "f ` set xs = f ` (set xs - {x1})"
    using assms by auto
  then have "card (f ` set xs) \<le> card (set xs - {x1})"
    by (metis card_image_le finite_Diff finite_set)
  also have "\<dots> < card (set xs)"
    using assms(1) by (intro card_Diff1_less) simp_all
  also have "\<dots> \<le> length xs" by (rule card_length)
  finally show ?thesis by simp
qed

subsection \<open>Claims about the orchestrator\<close>

text \<open>
  C7: \<open>process_repositories\<close> gives a report for every list of completed jobs, in every
  order of completion. When the jobs have distinct names and one of them raises (in the
  split of its name, in the walker or in the extraction), the exception is logged with
  the repository, the repository has no entry in the table of counts and no row in the
  output, the rows of the output are the rows of the jobs that returned, in order of
  completion, and every job that returned has its count in the table.
\<close>

theorem failed_repository_excluded:
  assumes d: "distinct (map fst jobs)" and j: "(repo, fetched) \<in> set jobs"
    and f: "process_single_repository repo fetched = Inl e"
  shows "(repo, e) \<in> set (errors (process_repositories jobs)) \<and>
         repo \<notin> fst ` set (summary (process_repositories jobs)) \<and>
         repo \<notin> r_repo ` set (csv_rows (process_repositories jobs)) \<and>
         csv_rows (process_repositories jobs) = concat (map rows_of jobs) \<and>
         (\<forall>r f rows.
            (r, f) \<in> set jobs \<and> process_single_repository r f = Inr rows \<longrightarrow>
            map_of (summary (process_repositories jobs)) r =
              Some (card (set (map r_email rows))))"
proof -
  have rows: "csv_rows (process_repositories jobs) = concat (map rows_of jobs)"
    by (simp add: process_repositories_def Let_def collect_rows)
  have "\<And>r f rows. (r, f) \<in> set jobs \<and> process_single_repository r f = Inr rows \<Longrightarrow>
          map_of (summary (process_repositories jobs)) r =
            Some (card (set (map r_email rows)))"
  proof -
    fix r f rows
    assume "(r, f) \<in> set jobs \<and> process_single_repository r f = Inr rows"
    then have "(r, f) \<in> set jobs" and ok: "process_single_repository r f = Inr rows"
      by simp_all
    from collect_map_count [OF d this]
    show "map_of (summary (process_repositories jobs)) r =
            Some (card (set (map r_email rows)))"
      by (simp add: process_repositories_def Let_def)
  qed
  with rows collect_errors [OF j f] failed_job_no_count [OF d j f] failed_job_no_rows [OF d j f]
  show ?thesis
    by (simp add: process_repositories_def Let_def)
qed

theorem failed_repository_excluded_witness:
  "distinct (map fst sample_jobs) \<and>
   (''octocat/broken'', Inl IndexError) \<in> set sample_jobs \<and>
   process_single_repository ''octocat/broken'' (Inl IndexError) = Inl IndexError \<and>
   (''octocat/broken'', IndexError) \<in> set (errors (process_repositories sample_jobs)) \<and>
   ''octocat/broken'' \<notin> fst ` set (summary (process_repositories sample_jobs)) \<and>
   ''octocat/broken'' \<notin> r_repo ` set (csv_rows (process_repositories sample_jobs)) \<and>
   csv_rows (process_repositories sample_jobs) = concat (map rows_of sample_jobs) \<and>
   (''octocat/world'', Inr [older_commit]) \<in> set sample_jobs \<and>
   process_single_repository ''octocat/world'' (Inr [older_commit]) = Inr [world_row] \<and>
   map_of (summary (process_repositories sample_jobs)) ''octocat/world'' =
     Some (card (set (map r_email [world_row])))"
proof -
  have d: "distinct (map fst sample_jobs)" by (simp add: sample_jobs_def)
  have j: "(''octocat/broken'', Inl IndexError) \<in> set sample_jobs" by (simp add: sample_jobs_def)
  have f: "process_single_repository ''octocat/broken'' (Inl IndexError) = Inl IndexError"
    by code_simp
  have j': "(''octocat/world'', Inr [older_commit]) \<in> set sample_jobs"
    by (simp add: sample_jobs_def)
  have ok: "process_single_repository ''octocat/world'' (Inr [older_commit]) = Inr [world_row]"
    by code_simp
  note r = failed_repository_excluded [OF d j f]
  note r5 = r [THEN conjunct2, THEN conjunct2, THEN conjunct2, THEN conjunct2]
  have c: "map_of (summary (process_repositories sample_jobs)) ''octocat/world'' =
            Some (card (set (map r_email [world_row])))"
    by (rule r5 [THEN spec, THEN spec, THEN spec, THEN mp, OF conjI [OF j' ok]])
  show ?thesis
    by (intro conjI d j f j' ok r [THEN conjunct1] r [THEN conjunct2, THEN conjunct1]
          r [THEN conjunct2, THEN conjunct2, THEN conjunct1]
          r [THEN conjunct2, THEN conjunct2, THEN conjunct2, THEN conjunct1]
          c)
qed

text \<open>
  C8: when two jobs with different names both return a row with the same email, both rows
  are in the merged output and they are different rows; the count of each repository is
  the number of distinct emails among its own rows; and the total is the number of
  distinct emails among all rows of the output, which counts the shared email once and so
  is smaller than the number of rows.
\<close>

theorem per_repository_dedup_independent:
  assumes d: "distinct (map fst jobs)"
    and j1: "(repo1, f1) \<in> set jobs" and j2: "(repo2, f2) \<in> set jobs"
    and ne: "repo1 \<noteq> repo2"
    and ok1: "process_single_repository repo1 f1 = Inr rows1"
    and ok2: "process_single_repository repo2 f2 = Inr rows2"
    and x1: "x1 \<in> set rows1" and x2: "x2 \<in> set rows2"
    and same: "r_email x1 = r_email x2"
  shows "x1 \<in> set (csv_rows (process_repositories jobs)) \<and>
         x2 \<in> set (csv_rows (process_repositories jobs)) \<and>
         x1 \<noteq> x2 \<and>
         map_of (summary (process_repositories jobs)) repo1 = Some (card (r_email ` set rows1)) \<and>
         map_of (summary (process_repositories jobs)) repo2 = Some (card (r_email ` set rows2)) \<and>
         total_unique_contributors (process_repositories jobs) =
           card (r_email ` set (csv_rows (process_repositories jobs))) \<and>
         total_unique_contributors (process_repositories jobs) <
           length (csv_rows (process_repositories jobs))"
proof -
  let ?out = "process_repositories jobs"
  have rows: "csv_rows ?out = concat (map rows_of jobs)"
    by (simp add: process_repositories_def Let_def collect_rows)
  from ok1 x1 have "x1 \<in> set (rows_of (repo1, f1))" by (simp add: rows_of_def)
  with j1 rows have in1: "x1 \<in> set (csv_rows ?out)" by auto
  from ok2 x2 have "x2 \<in> set (rows_of (repo2, f2))" by (simp add: rows_of_def)
  with j2 rows have in2: "x2 \<in> set (csv_rows ?out)" by auto
  from process_single_repository_repo [OF ok1 x1] process_single_repository_repo [OF ok2 x2] ne
  have diff: "x1 \<noteq> x2" by auto
  from collect_map_count [OF d j1 ok1]
  have c1: "map_of (summary ?out) repo1 = Some (card (r_email ` set rows1))"
    by (simp add: process_repositories_def Let_def)
  from collect_map_count [OF d j2 ok2]
  have c2: "map_of (summary ?out) repo2 = Some (card (r_email ` set rows2))"
    by (simp add: process_repositories_def Let_def)
  have tot: "total_unique_contributors ?out = card (r_email ` set (csv_rows ?out))"
    by (simp add: process_repositories_def Let_def)
  from repeated_email_counted_once [OF in1 in2 diff same] tot
  have less: "total_unique_contributors ?out < length (csv_rows ?out)" by simp
  from in1 in2 diff c1 c2 tot less show ?thesis by blast
qed

theorem per_repository_dedup_independent_witness:
  "distinct (map fst sample_jobs) \<and>
   (''octocat/hello'', Inr [bot_commit, human_commit]) \<in> set sample_jobs \<and>
   (''octocat/world'', Inr [older_commit]) \<in> set sample_jobs \<and>
   ''octocat/hello'' \<noteq> ''octocat/world'' \<and>
   process_single_repository ''octocat/hello'' (Inr [bot_commit, human_commit]) = Inr [hello_row] \<and>
   process_single_repository ''octocat/world'' (Inr [older_commit]) = Inr [world_row] \<and>
   hello_row \<in> set [hello_row] \<and> world_row \<in> set [world_row] \<and>
   r_email hello_row = r_email world_row \<and>
   hello_row \<in> set (csv_rows (process_repositories sample_jobs)) \<and>
   world_row \<in> set (csv_rows (process_repositories sample_jobs)) \<and>
   hello_row \<noteq> world_row \<and>
   map_of (summary (process_repositories sample_jobs)) ''octocat/hello'' =
     Some (card (r_email ` set [hello_row])) \<and>
   map_of (summary (process_repositories sample_jobs)) ''octocat/world'' =
     Some (card (r_email ` set [world_row])) \<and>
   total_unique_contributors (process_repositories sample_jobs) =
     card (r_email ` set (csv_rows (process_repositories sample_jobs))) \<and>
   total_unique_contributors (process_repositories sample_jobs) <
     length (csv_rows (process_repositories sample_jobs))"
proof -
  have d: "distinct (map fst sample_jobs)" by (simp add: sample_jobs_def)
  have j1: "(''octocat/hello'', Inr [bot_commit, human_commit]) \<in> set sample_jobs"
    by (simp add: sample_jobs_def)
  have j2: "(''octocat/world'', Inr [older_commit]) \<in> set sample_jobs"
    by (simp add: sample_jobs_def)
  have ne: "''octocat/hello'' \<noteq> ''octocat/world''" by simp
  have ok1: "process_single_repository ''octocat/hello'' (Inr [bot_commit, human_commit]) =
               Inr [hello_row]"
    by code_simp
  have ok2: "process_single_repository ''octocat/world'' (Inr [older_commit]) = Inr [world_row]"
    by code_simp
  have x1: "hello_row \<in> set [hello_row]" by simp
  have x2: "world_row \<in> set [world_row]" by simp
  have same: "r_email hello_row = r_email world_row"
    by (simp add: hello_row_def world_row_def)
  note r = per_repository_dedup_independent [OF d j1 j2 ne ok1 ok2 x1 x2 same]
  show ?thesis
    by (intro conjI d j1 j2 ne ok1 ok2 x1 x2 same r [THEN conjunct1]
          r [THEN conjunct2, THEN conjunct1]
          r [THEN conjunct2, THEN conjunct2, THEN conjunct1]
          r [THEN conjunct2, THEN conjunct2, THEN conjunct2, THEN conjunct1]
          r [THEN conjunct2, THEN conjunct2, THEN conjunct2, THEN conjunct2, THEN conjunct1]
          r [THEN conjunct2, THEN conjunct2, THEN conjunct2, THEN conjunct2, THEN conjunct2,
             THEN conjunct1]
          r [THEN conjunct2, THEN conjunct2, THEN conjunct2, THEN conjunct2, THEN conjunct2,
             THEN conjunct2])
qed

end
